theory Spec2Isabelle
  imports Complex_Main "HOL-Library.Log_Nat"
begin

section \<open>Buffers, machine integers and failures\<close>

text \<open>
  The kernels of \<^verbatim>\<open>pandas/_libs/groupby.pyx\<close> work on preallocated typed buffers.
  A one-dimensional buffer is a list, a two-dimensional row-major buffer is the list of
  its rows.  The kernels are compiled with bounds checks off, so a read or write outside a
  buffer is undefined in the source; the theorems below assume labels inside
  \<open>{-1} \<union> [0, ngroups)\<close> and buffers of the shapes the kernels expect, and say nothing
  outside.
\<close>

datatype error =
    ValueError string
  | AssertionError string
  | RuntimeError string
  | NotImplementedError string
  | KeyError string
  | OverflowError string

type_synonym 'a arr2 = "'a list list"

definition labels_ok :: "int list \<Rightarrow> nat \<Rightarrow> bool" where
  "labels_ok labels ngroups = (\<forall>l \<in> set labels. - 1 \<le> l \<and> l < int ngroups)"

text \<open>
  A scalar argument declared \<^verbatim>\<open>int\<close> is a 32-bit integer, one declared \<^verbatim>\<open>int64_t\<close> or
  \<^verbatim>\<open>Py_ssize_t\<close> a 64-bit integer; a call that passes a Python integer outside the range
  raises \<^verbatim>\<open>OverflowError\<close> before the kernel runs.  Arithmetic on these types wraps
  around.  A kernel below takes the Python integer, checks its range first and wraps
  where the source computes.
\<close>

definition is_int32 :: "int \<Rightarrow> bool" where
  "is_int32 x = (- 2147483648 \<le> x \<and> x < 2147483648)"

definition is_int64 :: "int \<Rightarrow> bool" where
  "is_int64 x = (- 9223372036854775808 \<le> x \<and> x < 9223372036854775808)"

definition wrap_int32 :: "int \<Rightarrow> int" where
  "wrap_int32 x = (x + 2147483648) mod 4294967296 - 2147483648"

definition wrap_int64 :: "int \<Rightarrow> int" where
  "wrap_int64 x = (x + 9223372036854775808) mod 18446744073709551616 - 9223372036854775808"

text \<open>
  \<open>set2 A i j v\<close> is the assignment \<^verbatim>\<open>A[i, j] = v\<close>; the read \<^verbatim>\<open>A[i, j]\<close> is \<open>A ! i ! j\<close>.
  \<open>shape2 A n k\<close> says that \<open>A\<close> has \<open>n\<close> rows of \<open>k\<close> columns.  Where the source reads
  a second dimension from \<^verbatim>\<open>.shape\<close>, the kernels below take it as the argument \<open>K\<close>
  (a list of rows has no width when it is empty).
\<close>

definition set2 :: "'a arr2 \<Rightarrow> nat \<Rightarrow> nat \<Rightarrow> 'a \<Rightarrow> 'a arr2" where
  "set2 A i j v = A[i := (A ! i)[j := v]]"

definition shape2 :: "'a arr2 \<Rightarrow> nat \<Rightarrow> nat \<Rightarrow> bool" where
  "shape2 A n k = (length A = n \<and> (\<forall>r \<in> set A. length r = k))"

text \<open>A mask is a buffer of \<^verbatim>\<open>uint8_t\<close>; a cell is set when it is not zero.\<close>

type_synonym uint8 = nat

section \<open>Floating-point values\<close>

text \<open>
  IEEE 754 binary floating point, in the two formats of the element types \<^verbatim>\<open>float32_t\<close>
  and \<^verbatim>\<open>float64_t\<close>.  A value is finite (a sign and a magnitude, so that there are two
  zeros), infinite or NaN.  A format gives the precision in bits and the exponent bound:
  the finite values are below \<open>2 ^ emax\<close> in magnitude and the least normal exponent is
  \<open>2 - emax\<close>.  Every operation computes the exact result and rounds it to the format,
  to nearest with ties to even, with gradual underflow and overflow to infinity.
\<close>

datatype float = Finite bool rat | Infinity bool | NaN

record format =
  prec :: nat
  emax :: int

definition binary32 :: format where
  "binary32 = \<lparr>prec = 24, emax = 128\<rparr>"

definition binary64 :: format where
  "binary64 = \<lparr>prec = 53, emax = 1024\<rparr>"

text \<open>\<open>ilog2 m\<close> is \<open>\<lfloor>log\<^sub>2 m\<rfloor>\<close> for \<open>m > 0\<close>.\<close>

definition ilog2 :: "rat \<Rightarrow> int" where
  "ilog2 m = (if 1 \<le> m then bitlen \<lfloor>m\<rfloor> - 1 else - bitlen (\<lceil>1 / m\<rceil> - 1))"

definition round_half_even :: "rat \<Rightarrow> int" where
  "round_half_even q =
     (let f = \<lfloor>q\<rfloor>; r = q - of_int f in
      if r < 1 / 2 then f else if 1 / 2 < r then f + 1 else if even f then f else f + 1)"

text \<open>
  Rounding a magnitude: the spacing of the format at \<open>m\<close> is \<open>ulp\<close>; the result is the
  multiple of \<open>ulp\<close> nearest to \<open>m\<close>, or \<open>None\<close> when that is \<open>2 ^ emax\<close> or more.
\<close>

definition round_mag :: "format \<Rightarrow> rat \<Rightarrow> rat option" where
  "round_mag F m =
     (if m = 0 then Some 0
      else
        let e = max (ilog2 m) (2 - emax F);
            ulp = 2 powi (e - int (prec F) + 1);
            r = of_int (round_half_even (m / ulp)) * ulp
        in if emax F \<le> ilog2 r then None else Some r)"

definition fround :: "format \<Rightarrow> bool \<Rightarrow> rat \<Rightarrow> float" where
  "fround F s m = (case round_mag F m of None \<Rightarrow> Infinity s | Some r \<Rightarrow> Finite s r)"

fun valof :: "float \<Rightarrow> rat" where
  "valof (Finite s m) = (if s then - m else m)"
| "valof (Infinity s) = 0"
| "valof NaN = 0"

fun fadd :: "format \<Rightarrow> float \<Rightarrow> float \<Rightarrow> float" where
  "fadd F NaN b = NaN"
| "fadd F (Infinity s) NaN = NaN"
| "fadd F (Finite s m) NaN = NaN"
| "fadd F (Infinity s) (Infinity s') = (if s = s' then Infinity s else NaN)"
| "fadd F (Infinity s) (Finite s' m') = Infinity s"
| "fadd F (Finite s m) (Infinity s') = Infinity s'"
| "fadd F (Finite s m) (Finite s' m') =
     (let x = valof (Finite s m) + valof (Finite s' m') in
      if x = 0 then Finite (s \<and> s') 0 else fround F (x < 0) \<bar>x\<bar>)"

fun fneg :: "float \<Rightarrow> float" where
  "fneg NaN = NaN"
| "fneg (Infinity s) = Infinity (\<not> s)"
| "fneg (Finite s m) = Finite (\<not> s) m"

definition fsub :: "format \<Rightarrow> float \<Rightarrow> float \<Rightarrow> float" where
  "fsub F a b = fadd F a (fneg b)"

fun fmul :: "format \<Rightarrow> float \<Rightarrow> float \<Rightarrow> float" where
  "fmul F NaN b = NaN"
| "fmul F (Infinity s) NaN = NaN"
| "fmul F (Finite s m) NaN = NaN"
| "fmul F (Infinity s) (Infinity s') = Infinity (s \<noteq> s')"
| "fmul F (Infinity s) (Finite s' m') = (if m' = 0 then NaN else Infinity (s \<noteq> s'))"
| "fmul F (Finite s m) (Infinity s') = (if m = 0 then NaN else Infinity (s \<noteq> s'))"
| "fmul F (Finite s m) (Finite s' m') = fround F (s \<noteq> s') (m * m')"

fun fdiv :: "format \<Rightarrow> float \<Rightarrow> float \<Rightarrow> float" where
  "fdiv F NaN b = NaN"
| "fdiv F (Infinity s) NaN = NaN"
| "fdiv F (Finite s m) NaN = NaN"
| "fdiv F (Infinity s) (Infinity s') = NaN"
| "fdiv F (Infinity s) (Finite s' m') = Infinity (s \<noteq> s')"
| "fdiv F (Finite s m) (Infinity s') = Finite (s \<noteq> s') 0"
| "fdiv F (Finite s m) (Finite s' m') =
     (if m' = 0 then (if m = 0 then NaN else Infinity (s \<noteq> s'))
      else fround F (s \<noteq> s') (m / m'))"

text \<open>
  The comparisons \<^verbatim>\<open>a == b\<close>, \<^verbatim>\<open>a < b\<close> and \<^verbatim>\<open>a <= b\<close>: false when an operand is NaN, and
  the two zeros are equal.  The test \<^verbatim>\<open>val == val\<close> of the source is \<open>feq val val\<close>.
\<close>

fun feq :: "float \<Rightarrow> float \<Rightarrow> bool" where
  "feq NaN b = False"
| "feq (Infinity s) NaN = False"
| "feq (Finite s m) NaN = False"
| "feq (Infinity s) (Infinity s') = (s = s')"
| "feq (Infinity s) (Finite s' m') = False"
| "feq (Finite s m) (Infinity s') = False"
| "feq (Finite s m) (Finite s' m') = (valof (Finite s m) = valof (Finite s' m'))"

fun flt :: "float \<Rightarrow> float \<Rightarrow> bool" where
  "flt NaN b = False"
| "flt (Infinity s) NaN = False"
| "flt (Finite s m) NaN = False"
| "flt (Infinity s) (Infinity s') = (s \<and> \<not> s')"
| "flt (Infinity s) (Finite s' m') = s"
| "flt (Finite s m) (Infinity s') = (\<not> s')"
| "flt (Finite s m) (Finite s' m') = (valof (Finite s m) < valof (Finite s' m'))"

definition fle :: "float \<Rightarrow> float \<Rightarrow> bool" where
  "fle a b = (flt a b \<or> feq a b)"

text \<open>The C conversion of an integer to the format: it rounds.\<close>

definition of_int_f :: "format \<Rightarrow> int \<Rightarrow> float" where
  "of_int_f F n = fround F (n < 0) \<bar>of_int n\<bar>"

text \<open>A value a literal denotes.\<close>

definition flit :: "rat \<Rightarrow> float" where
  "flit x = Finite (x < 0) \<bar>x\<bar>"

section \<open>group_shift_indexer\<close>

text \<open>
  \<^verbatim>\<open>label_seen\<close> and \<^verbatim>\<open>label_indexer\<close> are the kernel's scratch buffers of \<^verbatim>\<open>int64_t\<close>;
  \<^verbatim>\<open>out\<close> is the caller's.  \<open>shift_row\<close> is the body of the loop \<^verbatim>\<open>for i in range(N)\<close>
  of the \<^verbatim>\<open>else\<close> branch, at the row \<^verbatim>\<open>ii = offset + sign * i\<close>.
\<close>

record shift_state =
  si_out :: "int list"
  label_seen :: "int list"
  label_indexer :: "int arr2"

definition shift_row :: "int list \<Rightarrow> int \<Rightarrow> nat \<Rightarrow> shift_state \<Rightarrow> shift_state" where
  "shift_row labels periods ii st =
     (let lab = labels ! ii in
      if lab = - 1 then st\<lparr>si_out := (si_out st)[ii := - 1]\<rparr>
      else
        let g = nat lab;
            seen = wrap_int64 (label_seen st ! g + 1);
            idxer_slot = nat (seen mod periods);
            idxer = label_indexer st ! g ! idxer_slot
        in \<lparr>si_out = (si_out st)[ii := (if seen > periods then idxer else - 1)],
            label_seen = (label_seen st)[g := seen],
            label_indexer = (label_indexer st)[g := (label_indexer st ! g)[idxer_slot := int ii]]\<rparr>)"

text \<open>
  \<^verbatim>\<open>ngroups\<close>, \<^verbatim>\<open>periods\<close>, \<^verbatim>\<open>offset\<close> and \<^verbatim>\<open>sign\<close> are C \<^verbatim>\<open>int\<close>s.  The two arguments are
  converted at the call; \<^verbatim>\<open>label_seen = np.zeros(ngroups)\<close> is allocated next and raises
  for a negative size.  The negation \<^verbatim>\<open>periods = -periods\<close> and the assignment
  \<^verbatim>\<open>offset = N - 1\<close> wrap around: for the least \<^verbatim>\<open>int\<close> the negation gives the same negative
  value, and \<^verbatim>\<open>np.zeros((ngroups, periods))\<close> then raises.  The variable \<^verbatim>\<open>sign\<close> is not
  initialised when \<^verbatim>\<open>periods == 0\<close> and is not read on that path.
\<close>

definition group_shift_indexer :: "int list \<Rightarrow> int list \<Rightarrow> int \<Rightarrow> int \<Rightarrow> error + int list" where
  "group_shift_indexer out labels ngroups periods =
     (if \<not> is_int32 ngroups \<or> \<not> is_int32 periods then
        Inl (OverflowError ''value too large to convert to int'')
      else if ngroups < 0 then Inl (ValueError ''negative dimensions are not allowed'')
      else
        let N = length labels;
            (periods, offset, sign) =
               (if periods < 0 then (wrap_int32 (- periods), wrap_int32 (int N - 1), - 1)
                else if periods > 0 then (periods, 0, 1)
                else (periods, 0, 0))
        in if periods = 0 then Inr (fold (\<lambda>i out. out[i := int i]) [0..<N] out)
           else if periods < 0 then Inl (ValueError ''negative dimensions are not allowed'')
           else Inr (si_out
             (fold (\<lambda>i st. shift_row labels periods (nat (offset + sign * int i)) st) [0..<N]
                \<lparr>si_out = out,
                 label_seen = replicate (nat ngroups) 0,
                 label_indexer = replicate (nat ngroups) (replicate (nat periods) 0)\<rparr>)))"

text \<open>The rows in the order the loop visits them.\<close>

definition visit_order :: "nat \<Rightarrow> int \<Rightarrow> nat list" where
  "visit_order N periods = (if periods < 0 then rev [0..<N] else [0..<N])"

section \<open>group_any_all\<close>

text \<open>
  \<open>any_all_cell\<close> is the body of the loop \<^verbatim>\<open>for j in range(K)\<close>, \<open>any_all_row\<close> the body
  of \<^verbatim>\<open>for i in range(N)\<close>.  The values are \<^verbatim>\<open>int8_t\<close>; only 0, 1 and -1 are stored.
  The buffer \<^verbatim>\<open>mask\<close> is written \<open>msk\<close> (\<open>mask\<close> is a constant of HOL).
\<close>

definition any_all_cell ::
  "int arr2 \<Rightarrow> uint8 arr2 \<Rightarrow> bool \<Rightarrow> bool \<Rightarrow> int \<Rightarrow> nat \<Rightarrow> nat \<Rightarrow> nat \<Rightarrow> int arr2 \<Rightarrow> int arr2" where
  "any_all_cell values msk skipna nullable flag_val i lab j out =
     (if skipna \<and> msk ! i ! j \<noteq> 0 then out
      else if nullable \<and> msk ! i ! j \<noteq> 0 then
        (if out ! lab ! j \<noteq> flag_val then set2 out lab j (- 1) else out)
      else
        let val = values ! i ! j in
        if val = flag_val then set2 out lab j flag_val else out)"

definition any_all_row ::
  "int arr2 \<Rightarrow> int list \<Rightarrow> uint8 arr2 \<Rightarrow> bool \<Rightarrow> bool \<Rightarrow> int \<Rightarrow> nat \<Rightarrow> nat \<Rightarrow> int arr2 \<Rightarrow> int arr2" where
  "any_all_row values labels msk skipna nullable flag_val K i out =
     (let lab = labels ! i in
      if lab < 0 then out
      else fold (any_all_cell values msk skipna nullable flag_val i (nat lab)) [0..<K] out)"

definition group_any_all ::
  "int arr2 \<Rightarrow> nat \<Rightarrow> int arr2 \<Rightarrow> int list \<Rightarrow> uint8 arr2 \<Rightarrow> string \<Rightarrow> bool \<Rightarrow> bool
   \<Rightarrow> error + int arr2" where
  "group_any_all out K values labels msk val_test skipna nullable =
     (let N = length labels in
      case (if val_test = ''all'' then Inr 0
            else if val_test = ''any'' then Inr 1
            else Inl (ValueError ''bool_func must be either any or all'')) of
        Inl e \<Rightarrow> Inl e
      | Inr flag_val \<Rightarrow>
          Inr (fold (any_all_row values labels msk skipna nullable flag_val K) [0..<N]
                 (map (map (\<lambda>_. 1 - flag_val)) out)))"

section \<open>group_var\<close>

text \<open>
  The kernel is compiled for \<^verbatim>\<open>float32_t\<close> and for \<^verbatim>\<open>float64_t\<close>; \<open>F\<close> is the format.
  \<^verbatim>\<open>nobs\<close> and \<^verbatim>\<open>mean\<close> are the kernel's scratch buffers; \<^verbatim>\<open>out\<close> accumulates the sum of
  squared deviations and \<^verbatim>\<open>counts\<close> the rows of each group.  \<open>group_var_cell\<close> is the
  body of the loop over the columns, \<open>group_var_row\<close> the body of the loop over the rows,
  \<open>group_var_final\<close> the body of the second pair of loops.  Where the source divides by
  the \<^verbatim>\<open>int64_t\<close> count, compares the floating \<^verbatim>\<open>ct\<close> with the \<^verbatim>\<open>int64_t\<close> \<^verbatim>\<open>ddof\<close> or
  subtracts them, C converts the integer to the floating type first.
\<close>

record var_state =
  gv_out :: "float arr2"
  gv_counts :: "int list"
  gv_nobs :: "int arr2"
  gv_mean :: "float arr2"

definition group_var_cell :: "format \<Rightarrow> float arr2 \<Rightarrow> nat \<Rightarrow> nat \<Rightarrow> nat \<Rightarrow> var_state \<Rightarrow> var_state" where
  "group_var_cell F values i lab j st =
     (let val = values ! i ! j in
      if feq val val then
        let nobs = set2 (gv_nobs st) lab j (wrap_int64 (gv_nobs st ! lab ! j + 1));
            oldmean = gv_mean st ! lab ! j;
            mean = set2 (gv_mean st) lab j
                     (fadd F oldmean (fdiv F (fsub F val oldmean) (of_int_f F (nobs ! lab ! j))));
            out = set2 (gv_out st) lab j
                    (fadd F (gv_out st ! lab ! j)
                       (fmul F (fsub F val (mean ! lab ! j)) (fsub F val oldmean)))
        in st\<lparr>gv_out := out, gv_nobs := nobs, gv_mean := mean\<rparr>
      else st)"

definition group_var_row :: "format \<Rightarrow> float arr2 \<Rightarrow> int list \<Rightarrow> nat \<Rightarrow> nat \<Rightarrow> var_state \<Rightarrow> var_state" where
  "group_var_row F values labels K i st =
     (let lab = labels ! i in
      if lab < 0 then st
      else fold (group_var_cell F values i (nat lab)) [0..<K]
             (st\<lparr>gv_counts := (gv_counts st)[nat lab := wrap_int64 (gv_counts st ! nat lab + 1)]\<rparr>))"

definition group_var_final :: "format \<Rightarrow> int arr2 \<Rightarrow> int \<Rightarrow> nat \<Rightarrow> nat \<Rightarrow> float arr2 \<Rightarrow> float arr2" where
  "group_var_final F nobs ddof i j out =
     (let ct = of_int_f F (nobs ! i ! j) in
      if fle ct (of_int_f F ddof) then set2 out i j NaN
      else set2 out i j (fdiv F (out ! i ! j) (fsub F ct (of_int_f F ddof))))"

definition group_var ::
  "format \<Rightarrow> float arr2 \<Rightarrow> int list \<Rightarrow> nat \<Rightarrow> float arr2 \<Rightarrow> int list \<Rightarrow> int \<Rightarrow> int
   \<Rightarrow> error + float arr2 \<times> int list" where
  "group_var F out counts K values labels min_count ddof =
     (let ncounts = length counts; len_values = length values; len_labels = length labels in
      if \<not> is_int64 min_count \<or> \<not> is_int64 ddof then
        Inl (OverflowError ''Python int too large to convert to C long'')
      else if min_count \<noteq> - 1 then Inl (AssertionError ''min_count only used in add and prod'')
      else if len_values \<noteq> len_labels then Inl (ValueError ''len(index) != len(labels)'')
      else
        let N = length values;
            st = fold (group_var_row F values labels K) [0..<N]
                   \<lparr>gv_out = map (map (\<lambda>_. Finite False 0)) out, gv_counts = counts,
                    gv_nobs = map (map (\<lambda>_. 0)) out,
                    gv_mean = map (map (\<lambda>_. Finite False 0)) out\<rparr>;
            out' = fold (\<lambda>i. fold (group_var_final F (gv_nobs st) ddof i) [0..<K]) [0..<ncounts]
                     (gv_out st)
        in Inr (out', gv_counts st))"

text \<open>What one row does to one cell of out (skipna, nullable, flag_val, msk bit, value).\<close>

definition any_all_step :: "bool \<Rightarrow> bool \<Rightarrow> int \<Rightarrow> uint8 \<Rightarrow> int \<Rightarrow> int \<Rightarrow> int" where
  "any_all_step skipna nullable flag_val m v c =
     (if skipna \<and> m \<noteq> 0 then c
      else if nullable \<and> m \<noteq> 0 then (if c \<noteq> flag_val then - 1 else c)
      else if v = flag_val then flag_val else c)"

section \<open>Notions used to state and prove the properties of group_shift_indexer\<close>



section \<open>Notions used to state and prove the properties of group_var\<close>

text \<open>
  The Welford recurrence in the spec's words, on the triple of the count, the mean and
  \<open>M2\<close>: \<open>n \<leftarrow> n + 1; \<delta> = v - mean; mean += \<delta>/n; M2 += \<delta> \<cdot> (v - mean)\<close>, the
  arithmetic being that of the format.
\<close>

definition welford :: "format \<Rightarrow> float \<Rightarrow> int \<times> float \<times> float \<Rightarrow> int \<times> float \<times> float" where
  "welford F v = (\<lambda>(n, mean, M2).
     let n' = n + 1; \<delta> = fsub F v mean; mean' = fadd F mean (fdiv F \<delta> (of_int_f F n'))
     in (n', mean', fadd F M2 (fmul F \<delta> (fsub F v mean'))))"

text \<open>
  The non-NA values of the group \<open>g\<close> in the column \<open>j\<close>, in row order.
\<close>

definition group_values :: "float arr2 \<Rightarrow> int list \<Rightarrow> nat \<Rightarrow> nat \<Rightarrow> float list" where
  "group_values values labels g j =
     filter (\<lambda>v. v \<noteq> NaN)
       (map (\<lambda>i. values ! i ! j) (filter (\<lambda>i. labels ! i = int g) [0..<length labels]))"

text \<open>The kernel's three cells of a group and column, and what one value does to them.\<close>

definition var_cells :: "var_state \<Rightarrow> nat \<Rightarrow> nat \<Rightarrow> int \<times> float \<times> float" where
  "var_cells st g j = (gv_nobs st ! g ! j, gv_mean st ! g ! j, gv_out st ! g ! j)"

definition var_good :: "nat \<Rightarrow> nat \<Rightarrow> var_state \<Rightarrow> bool" where
  "var_good G K st = (shape2 (gv_out st) G K \<and> shape2 (gv_nobs st) G K \<and> shape2 (gv_mean st) G K)"

definition var_step :: "format \<Rightarrow> float \<Rightarrow> int \<times> float \<times> float \<Rightarrow> int \<times> float \<times> float" where
  "var_step F v c =
     (if v \<noteq> NaN then
        (case c of (n, mean, M2) \<Rightarrow>
           let n' = wrap_int64 (n + 1);
               mean' = fadd F mean (fdiv F (fsub F v mean) (of_int_f F n'))
           in (n', mean', fadd F M2 (fmul F (fsub F v mean') (fsub F v mean))))
      else c)"

section \<open>Buffers: reading after writing\<close>

lemma shape2_set2 [simp]: "shape2 (set2 A i j v) n k = shape2 A n k"
proof -
  have "set (A[i := (A ! i)[j := v]]) \<subseteq> insert ((A ! i)[j := v]) (set A)"
    by (rule set_update_subset_insert)
  then have "shape2 A n k \<Longrightarrow> shape2 (set2 A i j v) n k"
    unfolding shape2_def set2_def
    by (cases "i < length A") (auto simp: list_update_beyond)
  moreover have "shape2 (set2 A i j v) n k \<Longrightarrow> shape2 A n k"
  proof -
    assume s: "shape2 (set2 A i j v) n k"
    show "shape2 A n k"
      unfolding shape2_def
    proof (intro conjI ballI)
      show "length A = n" using s by (simp add: shape2_def set2_def)
      fix r assume "r \<in> set A"
      then obtain m where m: "m < length A" "A ! m = r" by (auto simp: in_set_conv_nth)
      then have "set2 A i j v ! m \<in> set (set2 A i j v)" by (simp add: set2_def)
      then have "length (set2 A i j v ! m) = k" using s by (simp add: shape2_def)
      then show "length r = k" using m by (cases "m = i") (simp_all add: set2_def)
    qed
  qed
  ultimately show ?thesis by blast
qed

lemma get_set2:
  assumes "shape2 A n k" "i < n" "j < k"
  shows "set2 A i j v ! i' ! j' = (if i' = i \<and> j' = j then v else A ! i' ! j')"
proof -
  have "length (A ! i) = k" using assms by (simp add: shape2_def)
  then show ?thesis
    using assms by (cases "i' = i"; cases "j' = j") (simp_all add: set2_def shape2_def)
qed

lemma shape2_nth: "shape2 A n k \<Longrightarrow> i < n \<Longrightarrow> length (A ! i) = k"
  by (simp add: shape2_def)

lemma shape2_length: "shape2 A n k \<Longrightarrow> length A = n"
  by (simp add: shape2_def)

lemma shape2_replicate [simp]: "shape2 (replicate n (replicate k v)) n k"
  by (simp add: shape2_def)

section \<open>Loops over rows and columns, seen from one cell\<close>

text \<open>
  A kernel's inner loop runs \<open>upd j\<close> for the columns \<open>j = 0, \<dots>, K - 1\<close> of one row with
  label \<open>lab\<close>.  When every \<open>upd j\<close> keeps the shapes (\<open>good\<close>) and changes, of the cells
  \<open>cell s g j\<close> the kernel keeps per group and column, only the one at \<open>(lab, j)\<close>, the
  whole loop applies \<open>f j\<close> to every cell of the group \<open>lab\<close> and leaves the others.
\<close>

lemma inner_loop_cells:
  assumes step: "\<And>s j. good s \<Longrightarrow> j < K \<Longrightarrow>
      good (upd j s) \<and> (\<forall>g' j'. g' < G \<longrightarrow> j' < K \<longrightarrow>
        cell (upd j s) g' j' = (if g' = lab \<and> j' = j then f j (cell s lab j) else cell s g' j'))"
    and good: "good s" and n: "n \<le> K"
  shows "good (fold upd [0..<n] s) \<and> (\<forall>g' j'. g' < G \<longrightarrow> j' < K \<longrightarrow>
      cell (fold upd [0..<n] s) g' j'
        = (if g' = lab \<and> j' < n then f j' (cell s lab j') else cell s g' j'))"
  using n
proof (induction n)
  case 0
  then show ?case using good by simp
next
  case (Suc n)
  then have IH: "good (fold upd [0..<n] s)"
      "\<And>g' j'. g' < G \<Longrightarrow> j' < K \<Longrightarrow> cell (fold upd [0..<n] s) g' j'
          = (if g' = lab \<and> j' < n then f j' (cell s lab j') else cell s g' j')"
    by simp_all
  have nK: "n < K" using Suc.prems by simp
  note st = step [OF IH(1) nK]
  show ?case
  proof (intro conjI allI impI)
    show "good (fold upd [0..<Suc n] s)" using st by simp
  next
    fix g' j' assume gj: "g' < G" "j' < K"
    have "cell (fold upd [0..<Suc n] s) g' j'
        = (if g' = lab \<and> j' = n then f n (cell (fold upd [0..<n] s) lab n)
           else cell (fold upd [0..<n] s) g' j')"
      using st gj by simp
    also have "\<dots> = (if g' = lab \<and> j' < Suc n then f j' (cell s lab j') else cell s g' j')"
    proof (cases "g' = lab \<and> j' = n")
      case True
      then show ?thesis using IH(2) [of lab n] gj by simp
    next
      case False
      then show ?thesis using IH(2) [OF gj] by (auto simp: less_Suc_eq)
    qed
    finally show "cell (fold upd [0..<Suc n] s) g' j'
        = (if g' = lab \<and> j' < Suc n then f j' (cell s lab j') else cell s g' j')" .
  qed
qed

text \<open>
  The outer loop runs \<open>row i\<close> for the rows \<open>i\<close> of \<open>rows\<close>.  When \<open>row i\<close> applies
  \<open>f i j\<close> to the cells of the group of row \<open>i\<close> and leaves the others, the cell
  \<open>(g, j)\<close> ends as the fold of \<open>f\<close> over the rows of the group \<open>g\<close>, in their order.
\<close>

lemma outer_loop_cells:
  assumes row: "\<And>s i. good s \<Longrightarrow> i \<in> set rows \<Longrightarrow>
      good (row i s) \<and> (\<forall>g j. g < G \<longrightarrow> j < K \<longrightarrow>
        cell (row i s) g j = (if labels ! i = int g then f i j (cell s g j) else cell s g j))"
    and good: "good s"
  shows "good (fold row rows s) \<and> (\<forall>g j. g < G \<longrightarrow> j < K \<longrightarrow>
      cell (fold row rows s) g j
        = fold (\<lambda>i. f i j) (filter (\<lambda>i. labels ! i = int g) rows) (cell s g j))"
  using row good
proof (induction rows arbitrary: s)
  case Nil
  then show ?case by simp
next
  case (Cons i rows)
  have st: "good (row i s)"
      "\<And>g j. g < G \<Longrightarrow> j < K \<Longrightarrow>
         cell (row i s) g j = (if labels ! i = int g then f i j (cell s g j) else cell s g j)"
    using Cons.prems(1) [of s i] Cons.prems(2) by simp_all
  have "good (fold row rows (row i s)) \<and> (\<forall>g j. g < G \<longrightarrow> j < K \<longrightarrow>
      cell (fold row rows (row i s)) g j
        = fold (\<lambda>i. f i j) (filter (\<lambda>i. labels ! i = int g) rows) (cell (row i s) g j))"
    using Cons.IH [of "row i s"] Cons.prems(1) st(1) by simp
  then show ?case using st(2) by simp
qed

text \<open>
  A finalize pass visits every cell \<open>(i, j)\<close> once and rewrites it from its own content.
\<close>

lemma final_loops_cells:
  fixes A :: "'a arr2"
  assumes upd: "\<And>A i j. shape2 A G K \<Longrightarrow> i < G \<Longrightarrow> j < K \<Longrightarrow>
      upd i j A = set2 A i j (h i j (A ! i ! j))"
    and sh: "shape2 A G K" and n: "n \<le> G"
  shows "shape2 (fold (\<lambda>i. fold (upd i) [0..<K]) [0..<n] A) G K
       \<and> (\<forall>g j. g < G \<longrightarrow> j < K \<longrightarrow>
            fold (\<lambda>i. fold (upd i) [0..<K]) [0..<n] A ! g ! j
            = (if g < n then h g j (A ! g ! j) else A ! g ! j))"
  using n
proof (induction n)
  case 0
  then show ?case using sh by simp
next
  case (Suc n)
  let ?B = "fold (\<lambda>i. fold (upd i) [0..<K]) [0..<n] A"
  have IH: "shape2 ?B G K"
      "\<And>g j. g < G \<Longrightarrow> j < K \<Longrightarrow> ?B ! g ! j = (if g < n then h g j (A ! g ! j) else A ! g ! j)"
    using Suc by simp_all
  have nG: "n < G" using Suc.prems by simp
  have row: "shape2 (fold (upd n) [0..<K] ?B) G K
       \<and> (\<forall>g' j'. g' < G \<longrightarrow> j' < K \<longrightarrow>
            fold (upd n) [0..<K] ?B ! g' ! j'
            = (if g' = n \<and> j' < K then h n j' (?B ! n ! j') else ?B ! g' ! j'))"
  proof (rule inner_loop_cells [where good = "\<lambda>s. shape2 s G K" and cell = "\<lambda>s g j. s ! g ! j"
          and f = "\<lambda>j. h n j"])
    fix s :: "'a arr2" and j assume s: "shape2 s G K" "j < K"
    then show "shape2 (upd n j s) G K \<and> (\<forall>g' j'. g' < G \<longrightarrow> j' < K \<longrightarrow>
        upd n j s ! g' ! j' = (if g' = n \<and> j' = j then h n j (s ! n ! j) else s ! g' ! j'))"
      using upd [OF s(1) nG s(2)] nG by (simp add: get_set2 [OF s(1)])
  qed (use IH(1) in simp_all)
  show ?case
  proof (intro conjI allI impI)
    show "shape2 (fold (\<lambda>i. fold (upd i) [0..<K]) [0..<Suc n] A) G K"
      using row by simp
  next
    fix g j assume gj: "g < G" "j < K"
    then show "fold (\<lambda>i. fold (upd i) [0..<K]) [0..<Suc n] A ! g ! j
        = (if g < Suc n then h g j (A ! g ! j) else A ! g ! j)"
      using row IH(2) [OF gj] IH(2) [of n j] nG by (auto simp: less_Suc_eq)
  qed
qed

text \<open>
  The two loops of an accumulation pass together: the body of the outer loop skips the
  rows of the NA group, runs \<open>pre\<close> (the update of \<^verbatim>\<open>counts\<close>) and then the inner loop.
\<close>

lemma reducer_loops:
  assumes cell: "\<And>s i lab j. good s \<Longrightarrow> lab < G \<Longrightarrow> j < K \<Longrightarrow>
      good (upd i lab j s) \<and> (\<forall>g' j'. g' < G \<longrightarrow> j' < K \<longrightarrow>
        cell (upd i lab j s) g' j'
          = (if g' = lab \<and> j' = j then f i j (cell s lab j) else cell s g' j'))"
    and pre: "\<And>s lab. good s \<Longrightarrow> good (pre lab s) \<and> (\<forall>g j. cell (pre lab s) g j = cell s g j)"
    and row: "\<And>s i. row i s =
      (if labels ! i < 0 then s
       else fold (upd i (nat (labels ! i))) [0..<K] (pre (nat (labels ! i)) s))"
    and ok: "labels_ok labels G" and gd: "good s"
  shows "good (fold row [0..<length labels] s) \<and> (\<forall>g j. g < G \<longrightarrow> j < K \<longrightarrow>
      cell (fold row [0..<length labels] s) g j
        = fold (\<lambda>i. f i j) (filter (\<lambda>i. labels ! i = int g) [0..<length labels]) (cell s g j))"
proof (rule outer_loop_cells [where good = good and cell = cell and f = f])
  fix s i assume s: "good s" and i: "i \<in> set [0..<length labels]"
  then have lab: "- 1 \<le> labels ! i" "labels ! i < int G"
    using ok by (simp_all add: labels_ok_def)
  show "good (row i s) \<and> (\<forall>g j. g < G \<longrightarrow> j < K \<longrightarrow>
      cell (row i s) g j = (if labels ! i = int g then f i j (cell s g j) else cell s g j))"
  proof (cases "labels ! i < 0")
    case True
    then show ?thesis using s by (auto simp: row)
  next
    case False
    define l where "l = nat (labels ! i)"
    have l: "l < G" "labels ! i = int l" using False lab by (simp_all add: l_def)
    have p: "good (pre l s)" "\<And>g j. cell (pre l s) g j = cell s g j"
      using pre [OF s, of l] by simp_all
    have "good (fold (upd i l) [0..<K] (pre l s)) \<and> (\<forall>g' j'. g' < G \<longrightarrow> j' < K \<longrightarrow>
        cell (fold (upd i l) [0..<K] (pre l s)) g' j'
          = (if g' = l \<and> j' < K then f i j' (cell (pre l s) l j') else cell (pre l s) g' j'))"
      by (rule inner_loop_cells [where good = good and cell = cell and f = "f i"])
         (use cell l(1) p(1) in auto)
    moreover have "row i s = fold (upd i l) [0..<K] (pre l s)"
      using False by (simp add: row l_def)
    ultimately show ?thesis using l by (auto simp: p(2))
  qed
qed (rule gd)

text \<open>A finalize pass over a state: every cell is rewritten once, from its own content.\<close>

lemma final_loops_state:
  assumes upd: "\<And>s i j. good s \<Longrightarrow> i < G \<Longrightarrow> j < K \<Longrightarrow>
      good (upd i j s) \<and> (\<forall>g' j'. g' < G \<longrightarrow> j' < K \<longrightarrow>
        cell (upd i j s) g' j' = (if g' = i \<and> j' = j then h i j (cell s i j) else cell s g' j'))"
    and gd: "good s" and n: "n \<le> G"
  shows "good (fold (\<lambda>i. fold (upd i) [0..<K]) [0..<n] s)
       \<and> (\<forall>g j. g < G \<longrightarrow> j < K \<longrightarrow>
            cell (fold (\<lambda>i. fold (upd i) [0..<K]) [0..<n] s) g j
            = (if g < n then h g j (cell s g j) else cell s g j))"
  using n
proof (induction n)
  case 0
  then show ?case using gd by simp
next
  case (Suc n)
  let ?B = "fold (\<lambda>i. fold (upd i) [0..<K]) [0..<n] s"
  have IH: "good ?B"
      "\<And>g j. g < G \<Longrightarrow> j < K \<Longrightarrow> cell ?B g j = (if g < n then h g j (cell s g j) else cell s g j)"
    using Suc by simp_all
  have nG: "n < G" using Suc.prems by simp
  have row: "good (fold (upd n) [0..<K] ?B)
       \<and> (\<forall>g' j'. g' < G \<longrightarrow> j' < K \<longrightarrow>
            cell (fold (upd n) [0..<K] ?B) g' j'
            = (if g' = n \<and> j' < K then h n j' (cell ?B n j') else cell ?B g' j'))"
    by (rule inner_loop_cells [where good = good and cell = cell and f = "\<lambda>j. h n j"])
       (use upd nG IH(1) in auto)
  show ?case
  proof (intro conjI allI impI)
    show "good (fold (\<lambda>i. fold (upd i) [0..<K]) [0..<Suc n] s)"
      using row by simp
  next
    fix g j assume gj: "g < G" "j < K"
    then show "cell (fold (\<lambda>i. fold (upd i) [0..<K]) [0..<Suc n] s) g j
        = (if g < Suc n then h g j (cell s g j) else cell s g j)"
      using row IH(2) [OF gj] IH(2) [of n j] nG by (auto simp: less_Suc_eq)
  qed
qed

lemma fold_count:
  "fold (\<lambda>i c. if P i then c else c + 1) rows (c0 :: int)
   = c0 + int (length (filter (\<lambda>i. \<not> P i) rows))"
  by (induction rows arbitrary: c0) simp_all

lemma filter_filter_rows:
  "filter (\<lambda>i. \<not> P i) (filter (\<lambda>i. labels ! i = int g) rows)
   = filter (\<lambda>i. labels ! i = int g \<and> \<not> P i) rows"
  by (induction rows) simp_all

section \<open>Facts about machine integers and floating-point values\<close>

lemma wrap_int32_id: "is_int32 x \<Longrightarrow> wrap_int32 x = x"
  by (simp add: is_int32_def wrap_int32_def)

lemma wrap_int64_id: "is_int64 x \<Longrightarrow> wrap_int64 x = x"
  by (simp add: is_int64_def wrap_int64_def)

lemma fmul_commute: "fmul F a b = fmul F b a"
proof -
  have "(s \<noteq> s') = (s' \<noteq> s)" for s s' :: bool by auto
  then show ?thesis
    by (cases a; cases b) (simp_all add: mult.commute)
qed

lemma fadd_NaN [simp]: "fadd F a NaN = NaN"
  by (cases a) simp_all

lemma fsub_NaN [simp]: "fsub F NaN b = NaN" "fsub F a NaN = NaN"
  by (simp_all add: fsub_def)

lemma feq_self [simp]: "feq v v \<longleftrightarrow> v \<noteq> NaN"
  by (cases v) simp_all

lemma round_half_even_int [simp]: "round_half_even (of_int z) = z"
  by (simp add: round_half_even_def)

lemma ilog2_of_int: "0 < n \<Longrightarrow> ilog2 (of_int n) = bitlen n - 1"
  by (simp add: ilog2_def)

lemma round_mag_int:
  assumes n: "0 < n" "n \<le> 2 ^ prec F" and F: "0 < prec F" "int (prec F) < emax F" "2 \<le> emax F"
  shows "round_mag F (of_int n) = Some (of_int n)"
proof -
  define e where "e = bitlen n - 1"
  have b: "2 ^ nat e \<le> n" "n < 2 ^ nat (e + 1)" "0 \<le> e"
    using bitlen_bounds [OF n(1)] bitlen_nonneg [of n] bitlen_eq_zero_iff [of n] n(1)
    by (simp_all add: e_def) 
  have e_le: "e \<le> int (prec F)"
  proof (rule ccontr)
    assume "\<not> e \<le> int (prec F)"
    then have "prec F < nat e" by simp
    then have "(2::int) ^ prec F < 2 ^ nat e" by simp
    with b(1) n(2) show False by simp
  qed
  have il: "ilog2 (of_int n) = e" using n(1) by (simp add: ilog2_of_int e_def)
  have mx: "max e (2 - emax F) = e" using b(3) F(3) by simp
  have r: "of_int (round_half_even (of_int n / 2 powi (e - int (prec F) + 1)))
            * 2 powi (e - int (prec F) + 1) = (of_int n :: rat)"
  proof (cases "e = int (prec F)")
    case True
    then have "n = 2 ^ prec F" using b(1) n(2) by (simp add: nat_power_eq)
    moreover obtain p where p: "prec F = Suc p" using F(1) by (cases "prec F") simp_all
    ultimately have q: "(of_int n :: rat) / 2 = of_int (2 ^ p)" by simp
    have "of_int (round_half_even (of_int n / 2)) * 2 = (of_int n :: rat)"
      unfolding q round_half_even_int using q by simp
    then show ?thesis using True by simp
  next
    case False
    then have k: "e - int (prec F) + 1 \<le> 0" using e_le by simp
    define k where "k = nat (- (e - int (prec F) + 1))"
    have pw: "(2::rat) powi (e - int (prec F) + 1) = 1 / 2 ^ k"
      using k by (simp add: power_int_def k_def inverse_eq_divide power_one_over)
    have q: "(of_int n :: rat) / (1 / 2 ^ k) = of_int (n * 2 ^ k)" by simp
    have "of_int (round_half_even (of_int n / (1 / 2 ^ k))) * (1 / 2 ^ k) = (of_int n :: rat)"
      unfolding q round_half_even_int by simp
    then show ?thesis unfolding pw .
  qed
  show ?thesis
    using n(1) e_le F(2) by (simp add: round_mag_def Let_def il mx r)
qed

lemma of_int_f_exact:
  assumes "\<bar>n\<bar> \<le> 2 ^ prec F" "0 < prec F" "int (prec F) < emax F" "2 \<le> emax F"
  shows "of_int_f F n = Finite (n < 0) \<bar>of_int n\<bar>"
proof (cases "n = 0")
  case True
  then show ?thesis by (simp add: of_int_f_def fround_def round_mag_def)
next
  case False
  then have "0 < \<bar>n\<bar>" by simp
  then have "round_mag F (of_int \<bar>n\<bar>) = Some (of_int \<bar>n\<bar>)"
    using assms by (intro round_mag_int) simp_all
  then show ?thesis by (simp add: of_int_f_def fround_def)
qed

lemma binary_formats:
  "0 < prec binary32" "int (prec binary32) < emax binary32" "2 \<le> emax binary32"
  "0 < prec binary64" "int (prec binary64) < emax binary64" "2 \<le> emax binary64"
  by (simp_all add: binary32_def binary64_def)

section \<open>Facts about group_any_all\<close>

lemma any_all_cell_at:
  assumes "shape2 out G K" "lab < G" "j < K"
  shows "shape2 (any_all_cell values msk skipna nullable flag_val i lab j out) G K
       \<and> (\<forall>g' j'. g' < G \<longrightarrow> j' < K \<longrightarrow>
            any_all_cell values msk skipna nullable flag_val i lab j out ! g' ! j'
            = (if g' = lab \<and> j' = j
               then any_all_step skipna nullable flag_val (msk ! i ! j) (values ! i ! j) (out ! lab ! j)
               else out ! g' ! j'))"
  using assms by (auto simp: any_all_cell_def any_all_step_def Let_def get_set2)

lemma any_all_row_at:
  assumes "shape2 out G K" "- 1 \<le> labels ! i" "labels ! i < int G"
  shows "shape2 (any_all_row values labels msk skipna nullable flag_val K i out) G K
       \<and> (\<forall>g j. g < G \<longrightarrow> j < K \<longrightarrow>
            any_all_row values labels msk skipna nullable flag_val K i out ! g ! j
            = (if labels ! i = int g
               then any_all_step skipna nullable flag_val (msk ! i ! j) (values ! i ! j) (out ! g ! j)
               else out ! g ! j))"
proof (cases "labels ! i < 0")
  case True
  then show ?thesis using assms by (auto simp: any_all_row_def)
next
  case False
  then have lab: "nat (labels ! i) < G" using assms by simp
  have "shape2 (fold (any_all_cell values msk skipna nullable flag_val i (nat (labels ! i))) [0..<K] out) G K
       \<and> (\<forall>g' j'. g' < G \<longrightarrow> j' < K \<longrightarrow>
            fold (any_all_cell values msk skipna nullable flag_val i (nat (labels ! i))) [0..<K] out ! g' ! j'
            = (if g' = nat (labels ! i) \<and> j' < K
               then any_all_step skipna nullable flag_val (msk ! i ! j') (values ! i ! j')
                      (out ! nat (labels ! i) ! j')
               else out ! g' ! j'))"
    by (rule inner_loop_cells [where good = "\<lambda>s. shape2 s G K" and cell = "\<lambda>s g j. s ! g ! j"
          and f = "\<lambda>j. any_all_step skipna nullable flag_val (msk ! i ! j) (values ! i ! j)"])
       (use any_all_cell_at lab assms(1) in auto)
  then show ?thesis
    using False by (auto simp: any_all_row_def)
qed

lemma any_all_fold_kleene:
  assumes "flag_val = 0 \<or> flag_val = 1" "c = flag_val \<or> c = 1 - flag_val \<or> c = - 1"
  shows "fold (\<lambda>i. any_all_step False True flag_val (msk ! i ! j) (values ! i ! j)) rows c
       = (if c = flag_val \<or> (\<exists>i \<in> set rows. msk ! i ! j = 0 \<and> values ! i ! j = flag_val)
          then flag_val
          else if c = - 1 \<or> (\<exists>i \<in> set rows. msk ! i ! j \<noteq> 0) then - 1
          else c)"
  using assms(2)
proof (induction rows arbitrary: c)
  case Nil
  then show ?case by simp
next
  case (Cons i rows)
  let ?c = "any_all_step False True flag_val (msk ! i ! j) (values ! i ! j) c"
  have c': "?c = flag_val \<or> ?c = 1 - flag_val \<or> ?c = - 1"
    using Cons.prems by (auto simp: any_all_step_def)
  show ?case
    using Cons.IH [OF c'] assms(1) Cons.prems
    by (auto simp: any_all_step_def)
qed

lemma group_any_all_cells:
  assumes "labels_ok labels G" "shape2 out G K" "g < G" "j < K"
  shows "fold (any_all_row values labels msk skipna nullable flag_val K) [0..<length labels]
           (map (map (\<lambda>_. 1 - flag_val)) out) ! g ! j
       = fold (\<lambda>i. any_all_step skipna nullable flag_val (msk ! i ! j) (values ! i ! j))
           (filter (\<lambda>i. labels ! i = int g) [0..<length labels]) (1 - flag_val)"
proof -
  let ?out0 = "map (map (\<lambda>_. 1 - flag_val)) out"
  have sh: "shape2 ?out0 G K" using assms(2) by (auto simp: shape2_def)
  have init: "?out0 ! g ! j = 1 - flag_val"
    using assms(2-4) by (simp add: shape2_def)
  have "shape2 (fold (any_all_row values labels msk skipna nullable flag_val K) [0..<length labels] ?out0) G K
      \<and> (\<forall>g j. g < G \<longrightarrow> j < K \<longrightarrow>
          fold (any_all_row values labels msk skipna nullable flag_val K) [0..<length labels] ?out0 ! g ! j
          = fold (\<lambda>i. any_all_step skipna nullable flag_val (msk ! i ! j) (values ! i ! j))
              (filter (\<lambda>i. labels ! i = int g) [0..<length labels]) (?out0 ! g ! j))"
  proof (rule outer_loop_cells [where good = "\<lambda>s. shape2 s G K" and cell = "\<lambda>s g j. s ! g ! j"
          and f = "\<lambda>i j. any_all_step skipna nullable flag_val (msk ! i ! j) (values ! i ! j)"])
    fix s :: "int arr2" and i assume "shape2 s G K" "i \<in> set [0..<length labels]"
    then show "shape2 (any_all_row values labels msk skipna nullable flag_val K i s) G K \<and>
           (\<forall>g j. g < G \<longrightarrow> j < K \<longrightarrow>
                  any_all_row values labels msk skipna nullable flag_val K i s ! g ! j =
                  (if labels ! i = int g
                   then any_all_step skipna nullable flag_val (msk ! i ! j) (values ! i ! j) (s ! g ! j)
                   else s ! g ! j))"
      using any_all_row_at [of s G K labels i] assms(1) by (simp add: labels_ok_def)
  qed (rule sh)
  then show ?thesis using assms(3,4) init by simp
qed

lemma any_all_fold_skipna:
  "fold (\<lambda>i. any_all_step True nullable flag_val (msk ! i ! j) (values ! i ! j)) rows c
   = (if \<exists>i \<in> set rows. msk ! i ! j = 0 \<and> values ! i ! j = flag_val then flag_val else c)"
  by (induction rows arbitrary: c) (auto simp: any_all_step_def)

section \<open>Facts about group_shift_indexer\<close>

lemma shift_row_length [simp]: "length (si_out (shift_row labels p ii st)) = length (si_out st)"
  by (simp add: shift_row_def Let_def)

lemma shift_fold_length [simp]:
  "length (si_out (fold (shift_row labels p) rs st)) = length (si_out st)"
  by (induction rs arbitrary: st) simp_all

lemma fold_reindex: "fold (\<lambda>i. f (g i)) xs s = fold f (map g xs) s"
  by (simp add: fold_map comp_def)

lemma map_backwards: "map (\<lambda>i. nat (int N - 1 - int i)) [0..<N] = rev [0..<N]"
proof (rule nth_equalityI)
  show "length (map (\<lambda>i. nat (int N - 1 - int i)) [0..<N]) = length (rev [0..<N])"
    by simp
next
  fix k assume "k < length (map (\<lambda>i. nat (int N - 1 - int i)) [0..<N])"
  then have k: "k < N" by simp
  then have "rev [0..<N] ! k = N - 1 - k"
    by (simp add: rev_nth)
  moreover have "nat (int N - 1 - int k) = N - 1 - k"
    using k by simp
  ultimately show "map (\<lambda>i. nat (int N - 1 - int i)) [0..<N] ! k = rev [0..<N] ! k"
    using k by simp
qed

lemma group_shift_indexer_visit:
  assumes "periods \<noteq> 0" "is_int32 periods" "periods \<noteq> - 2147483648"
    and "is_int32 ngroups" "0 \<le> ngroups" "length labels < 2147483648"
  shows "group_shift_indexer out labels ngroups periods =
         Inr (si_out (fold (shift_row labels \<bar>periods\<bar>) (visit_order (length labels) periods)
           \<lparr>si_out = out, label_seen = replicate (nat ngroups) 0,
            label_indexer = replicate (nat ngroups) (replicate (nat \<bar>periods\<bar>) 0)\<rparr>))"
proof (cases "periods < 0")
  case True
  have neg: "wrap_int32 (- periods) = - periods"
    using assms(2,3) by (intro wrap_int32_id) (simp add: is_int32_def)
  have off: "wrap_int32 (int (length labels) - 1) = int (length labels) - 1"
    using assms(6) by (intro wrap_int32_id) (simp add: is_int32_def)
  have "fold (\<lambda>i. shift_row labels (- periods) (nat (int (length labels) - 1 - int i)))
          [0..<length labels] s
        = fold (shift_row labels (- periods)) (rev [0..<length labels]) s" for s
    using fold_reindex [of "shift_row labels (- periods)"
        "\<lambda>i. nat (int (length labels) - 1 - int i)" "[0..<length labels]" s]
    by (simp only: map_backwards)
  with True assms(2,4,5) show ?thesis
    by (simp add: group_shift_indexer_def visit_order_def Let_def neg off)
next
  case False
  with assms have pos: "periods > 0" by simp
  then show ?thesis
    using assms(2,4,5) by (simp add: group_shift_indexer_def visit_order_def Let_def)
qed

lemma shift_row_keeps_null:
  assumes "si_out st ! i = - 1" "labels ! i = - 1"
  shows "si_out (shift_row labels p ii st) ! i = - 1"
proof (cases "ii = i")
  case True
  with assms show ?thesis
    by (cases "i < length (si_out st)") (simp_all add: shift_row_def list_update_beyond)
next
  case False
  then show ?thesis
    using assms by (simp add: shift_row_def Let_def)
qed

lemma shift_fold_keeps_null:
  assumes "si_out st ! i = - 1" "labels ! i = - 1"
  shows "si_out (fold (shift_row labels p) rs st) ! i = - 1"
  using assms by (induction rs arbitrary: st) (simp_all add: shift_row_keeps_null)

lemma shift_fold_null:
  assumes "i \<in> set rs" "labels ! i = - 1" "i < length (si_out st)"
  shows "si_out (fold (shift_row labels p) rs st) ! i = - 1"
  using assms
proof (induction rs arbitrary: st)
  case Nil
  then show ?case by simp
next
  case (Cons r rs)
  show ?case
  proof (cases "r = i")
    case True
    with Cons.prems have "si_out (shift_row labels p r st) ! i = - 1"
      by (simp add: shift_row_def)
    then show ?thesis
      using Cons.prems by (simp add: shift_fold_keeps_null)
  next
    case False
    with Cons.prems have "i \<in> set rs" by simp
    then show ?thesis
      using Cons.IH [of "shift_row labels p r st"] Cons.prems by simp
  qed
qed

lemma set_visit_order [simp]: "set (visit_order N p) = {0..<N}"
  by (simp add: visit_order_def)









lemma length_visit_order [simp]: "length (visit_order N p) = N"
  by (simp add: visit_order_def)

section \<open>Facts about group_var\<close>

lemma valof_of_int [simp]: "valof (Finite (n < 0) \<bar>of_int n\<bar>) = of_int n"
  by simp

lemma fle_exact_int:
  "fle (Finite (n < 0) \<bar>of_int n\<bar>) (Finite (d < 0) \<bar>of_int d\<bar>) \<longleftrightarrow> n \<le> d"
  by (auto simp: fle_def)

lemma fsub_exact_int:
  assumes "d < n"
  shows "fsub F (Finite (n < 0) \<bar>of_int n\<bar>) (Finite (d < 0) \<bar>of_int d\<bar>) = of_int_f F (n - d)"
proof -
  have "valof (Finite (n < 0) \<bar>of_int n\<bar>) + valof (Finite (\<not> d < 0) \<bar>of_int d\<bar>) = of_int (n - d)"
    by simp
  then show ?thesis
    using assms by (simp add: fsub_def of_int_f_def Let_def del: valof.simps)
qed

lemma group_var_cell_at:
  assumes "var_good G K st" "lab < G" "j < K"
  shows "var_good G K (group_var_cell F values i lab j st)
       \<and> (\<forall>g' j'. g' < G \<longrightarrow> j' < K \<longrightarrow>
            var_cells (group_var_cell F values i lab j st) g' j'
            = (if g' = lab \<and> j' = j then var_step F (values ! i ! j) (var_cells st lab j)
               else var_cells st g' j'))"
proof -
  have sh: "shape2 (gv_out st) G K" "shape2 (gv_nobs st) G K" "shape2 (gv_mean st) G K"
    using assms(1) by (simp_all add: var_good_def)
  show ?thesis
    using assms(2,3)
    by (simp add: group_var_cell_def var_good_def var_cells_def var_step_def Let_def
        sh get_set2 [OF sh(1)] get_set2 [OF sh(2)] get_set2 [OF sh(3)])
qed

lemma group_var_rows:
  assumes "labels_ok labels G" "var_good G K st" "g < G" "j < K"
  shows "var_good G K (fold (group_var_row F values labels K) [0..<length labels] st)"
    and "var_cells (fold (group_var_row F values labels K) [0..<length labels] st) g j
       = fold (\<lambda>i. var_step F (values ! i ! j))
           (filter (\<lambda>i. labels ! i = int g) [0..<length labels]) (var_cells st g j)"
proof -
  have "var_good G K (fold (group_var_row F values labels K) [0..<length labels] st)
      \<and> (\<forall>g j. g < G \<longrightarrow> j < K \<longrightarrow>
          var_cells (fold (group_var_row F values labels K) [0..<length labels] st) g j
          = fold (\<lambda>i. var_step F (values ! i ! j))
              (filter (\<lambda>i. labels ! i = int g) [0..<length labels]) (var_cells st g j))"
  proof (rule reducer_loops [where good = "var_good G K" and cell = var_cells
        and upd = "group_var_cell F values"
        and pre = "\<lambda>lab st. st\<lparr>gv_counts := (gv_counts st)[lab := wrap_int64 (gv_counts st ! lab + 1)]\<rparr>"
        and f = "\<lambda>i j. var_step F (values ! i ! j)"])
    fix s :: var_state and i lab j
    assume a: "var_good G K s" "lab < G" "j < K"
    show "var_good G K (group_var_cell F values i lab j s) \<and>
       (\<forall>g' j'. g' < G \<longrightarrow> j' < K \<longrightarrow>
          var_cells (group_var_cell F values i lab j s) g' j'
          = (if g' = lab \<and> j' = j then var_step F (values ! i ! j) (var_cells s lab j)
             else var_cells s g' j'))"
      by (rule group_var_cell_at [OF a])
  qed (use assms in \<open>simp_all add: group_var_row_def Let_def var_good_def var_cells_def\<close>)
  then show "var_good G K (fold (group_var_row F values labels K) [0..<length labels] st)"
    and "var_cells (fold (group_var_row F values labels K) [0..<length labels] st) g j
       = fold (\<lambda>i. var_step F (values ! i ! j))
           (filter (\<lambda>i. labels ! i = int g) [0..<length labels]) (var_cells st g j)"
    using assms(3,4) by simp_all
qed

lemma fold_var_step:
  assumes "0 \<le> n" "n + int (length rows) < 9223372036854775808"
  shows "fold (\<lambda>i. var_step F (values ! i ! j)) rows (n, m, M2)
   = fold (welford F) (filter (\<lambda>v. v \<noteq> NaN) (map (\<lambda>i. values ! i ! j) rows)) (n, m, M2)"
  using assms
proof (induction rows arbitrary: n m M2)
  case Nil
  then show ?case by simp
next
  case (Cons i rows)
  show ?case
  proof (cases "values ! i ! j = NaN")
    case True
    then show ?thesis using Cons.IH [of n m M2] Cons.prems by (simp add: var_step_def)
  next
    case False
    have w: "wrap_int64 (n + 1) = n + 1"
      using Cons.prems by (intro wrap_int64_id) (simp add: is_int64_def)
    have st: "var_step F (values ! i ! j) (n, m, M2) = welford F (values ! i ! j) (n, m, M2)"
      using False by (simp add: var_step_def welford_def Let_def w fmul_commute)
    obtain m' M2' where w': "welford F (values ! i ! j) (n, m, M2) = (n + 1, m', M2')"
      by (simp add: welford_def Let_def)
    show ?thesis
      using False Cons.IH [of "n + 1" m' M2'] Cons.prems by (simp add: st w')
  qed
qed

lemma fold_welford_count: "fst (fold (welford F) vs (n, m, M2)) = n + int (length vs)"
  by (induction vs arbitrary: n m M2) (simp_all add: welford_def Let_def)

lemma group_var_final_eq:
  "group_var_final F nobs ddof i j out
   = set2 out i j (if fle (of_int_f F (nobs ! i ! j)) (of_int_f F ddof) then NaN
                   else fdiv F (out ! i ! j) (fsub F (of_int_f F (nobs ! i ! j)) (of_int_f F ddof)))"
  by (simp add: group_var_final_def Let_def)

lemma length_group_values: "length (group_values values labels g j) \<le> length labels"
proof -
  have "length (group_values values labels g j)
      \<le> length (filter (\<lambda>i. labels ! i = int g) [0..<length labels])"
    unfolding group_values_def by (metis length_filter_le length_map)
  also have "\<dots> \<le> length [0..<length labels]" by (rule length_filter_le)
  finally show ?thesis by simp
qed

lemma group_var_cell_value:
  assumes "labels_ok labels G" "length counts = G" "shape2 out G K"
    and "length values = length labels" "g < G" "j < K"
    and "is_int64 ddof" "int (length labels) < 9223372036854775808"
  shows "\<exists>out' counts'. group_var F out counts K values labels (- 1) ddof = Inr (out', counts')
       \<and> (case fold (welford F) (group_values values labels g j) (0, Finite False 0, Finite False 0) of
            (n, mean, M2) \<Rightarrow>
              n = int (length (group_values values labels g j))
              \<and> out' ! g ! j = (if fle (of_int_f F n) (of_int_f F ddof) then NaN
                                else fdiv F M2 (fsub F (of_int_f F n) (of_int_f F ddof))))"
proof -
  define st0 where "st0 = \<lparr>gv_out = map (map (\<lambda>_. Finite False 0)) out, gv_counts = counts,
      gv_nobs = map (map (\<lambda>_. 0)) out, gv_mean = map (map (\<lambda>_. Finite False 0)) out\<rparr>"
  define st where "st = fold (group_var_row F values labels K) [0..<length labels] st0"
  define out' where "out' = fold (\<lambda>i. fold (group_var_final F (gv_nobs st) ddof i) [0..<K]) [0..<G] (gv_out st)"
  have run: "group_var F out counts K values labels (- 1) ddof = Inr (out', gv_counts st)"
    using assms(2,4,7) by (simp add: group_var_def Let_def st0_def st_def out'_def is_int64_def)
  have good0: "var_good G K st0"
    using assms(3) by (auto simp: var_good_def st0_def shape2_def)
  have cells0: "var_cells st0 g j = (0, Finite False 0, Finite False 0)"
    using assms(3,5,6) by (simp add: var_cells_def st0_def shape2_def)
  have good: "var_good G K st"
    unfolding st_def by (rule group_var_rows(1) [OF assms(1) good0 assms(5,6)])
  have len: "int (length (filter (\<lambda>i. labels ! i = int g) [0..<length labels]))
      < 9223372036854775808"
  proof -
    have "length (filter (\<lambda>i. labels ! i = int g) [0..<length labels]) \<le> length [0..<length labels]"
      by (rule length_filter_le)
    then show ?thesis using assms(8) by simp
  qed
  have cells: "var_cells st g j
      = fold (welford F) (group_values values labels g j) (0, Finite False 0, Finite False 0)"
    unfolding st_def group_var_rows(2) [OF assms(1) good0 assms(5,6)] cells0
    using fold_var_step [of 0 "filter (\<lambda>i. labels ! i = int g) [0..<length labels]" F "values" j
        "Finite False 0" "Finite False 0"] len
    by (simp add: group_values_def)
  have fin: "out' ! g ! j
      = (if fle (of_int_f F (gv_nobs st ! g ! j)) (of_int_f F ddof) then NaN
         else fdiv F (gv_out st ! g ! j) (fsub F (of_int_f F (gv_nobs st ! g ! j)) (of_int_f F ddof)))"
  proof -
    have "shape2 out' G K \<and> (\<forall>g j. g < G \<longrightarrow> j < K \<longrightarrow>
            out' ! g ! j = (if g < G
              then (if fle (of_int_f F (gv_nobs st ! g ! j)) (of_int_f F ddof) then NaN
                    else fdiv F (gv_out st ! g ! j)
                           (fsub F (of_int_f F (gv_nobs st ! g ! j)) (of_int_f F ddof)))
              else gv_out st ! g ! j))"
      unfolding out'_def
      by (rule final_loops_cells [where h = "\<lambda>i j c.
              if fle (of_int_f F (gv_nobs st ! i ! j)) (of_int_f F ddof) then NaN
              else fdiv F c (fsub F (of_int_f F (gv_nobs st ! i ! j)) (of_int_f F ddof))"])
         (use good in \<open>simp_all add: group_var_final_eq var_good_def\<close>)
    then show ?thesis using assms(5,6) by simp
  qed
  obtain n mean M2 where w: "fold (welford F) (group_values values labels g j)
      (0, Finite False 0, Finite False 0) = (n, mean, M2)"
    by (cases "fold (welford F) (group_values values labels g j) (0, Finite False 0, Finite False 0)")
  have n: "n = int (length (group_values values labels g j))"
    using fold_welford_count [of F "group_values values labels g j" 0 "Finite False 0" "Finite False 0"] w
    by simp
  have "gv_nobs st ! g ! j = n" "gv_out st ! g ! j = M2"
    using cells w by (simp_all add: var_cells_def)
  then show ?thesis
    using run fin w n by simp
qed

lemma var_exact_form:
  assumes F: "F = binary32 \<or> F = binary64"
    and "\<bar>ddof\<bar> \<le> 2 ^ prec F" "0 \<le> n" "n \<le> 2 ^ prec F"
  shows "(if fle (of_int_f F n) (of_int_f F ddof) then NaN
          else fdiv F M2 (fsub F (of_int_f F n) (of_int_f F ddof)))
       = (if n \<le> ddof then NaN else fdiv F M2 (of_int_f F (n - ddof)))"
proof -
  have fmt: "0 < prec F" "int (prec F) < emax F" "2 \<le> emax F"
    using F binary_formats by auto
  have n: "of_int_f F n = Finite (n < 0) \<bar>of_int n\<bar>"
    using assms(3,4) by (intro of_int_f_exact fmt) simp
  have d: "of_int_f F ddof = Finite (ddof < 0) \<bar>of_int ddof\<bar>"
    using assms(2) by (intro of_int_f_exact fmt)
  show ?thesis
    unfolding n d fle_exact_int by (simp add: fsub_exact_int)
qed

section \<open>Kleene logic of group_any_all\<close>

text \<open>
  C5.  The claim as stated holds for every \<open>skipna\<close>.  With \<open>skipna\<close> set the masked
  cells are skipped before \<open>nullable\<close> is looked at, so the spec's own example then ends
  with 0 and not with -1.
\<close>

theorem any_all_skipna_counterexample:
  "group_any_all [[5]] 1 [[0], [0], [0]] [0, 0, 0] [[1], [0], [0]] ''any'' True True = Inr [[0]]"
  by (simp add: group_any_all_def any_all_row_def any_all_cell_def set2_def upt_rec)

text \<open>
  C5, amended.  Let \<open>val_test\<close> be any (\<open>flag_val = 1\<close>) or all (\<open>flag_val = 0\<close>); the call
  succeeds.  With \<open>nullable\<close> set and \<open>skipna\<close> not set, a cell of \<^verbatim>\<open>out\<close> is -1 on return
  iff some row of its group is masked in that column and no row of the group has an
  unmasked value equal to \<open>flag_val\<close> there; the spec's example gives \<open>[[-1]]\<close>.  With
  \<open>skipna\<close> set, whatever \<open>nullable\<close>, the masked cells are ignored: the cell is
  \<open>flag_val\<close> when a row of the group has an unmasked value equal to \<open>flag_val\<close> and
  \<open>1 - flag_val\<close> otherwise, and so never -1.
\<close>

theorem any_all_kleene:
  assumes "labels_ok labels G" "shape2 out G K" "g < G" "j < K"
    and "(val_test = ''any'' \<and> flag_val = 1) \<or> (val_test = ''all'' \<and> flag_val = 0)"
  shows "(\<exists>out'. group_any_all out K values labels msk val_test False True = Inr out'
            \<and> (out' ! g ! j = - 1 \<longleftrightarrow>
                 (\<exists>i < length labels. labels ! i = int g \<and> msk ! i ! j \<noteq> 0)
                 \<and> \<not> (\<exists>i < length labels. labels ! i = int g \<and> msk ! i ! j = 0
                           \<and> values ! i ! j = flag_val)))
       \<and> (\<exists>out'. group_any_all out K values labels msk val_test True nullable = Inr out'
            \<and> out' ! g ! j
                = (if \<exists>i < length labels. labels ! i = int g \<and> msk ! i ! j = 0
                         \<and> values ! i ! j = flag_val
                   then flag_val else 1 - flag_val)
            \<and> out' ! g ! j \<noteq> - 1)
       \<and> group_any_all [[5]] 1 [[0], [0], [0]] [0, 0, 0] [[1], [0], [0]] ''any'' False True
           = Inr [[- 1]]"
proof (intro conjI)
  have fl: "flag_val = 0 \<or> flag_val = 1" using assms(5) by auto
  have run: "group_any_all out K values labels msk val_test sk nl
      = Inr (fold (any_all_row values labels msk sk nl flag_val K) [0..<length labels]
               (map (map (\<lambda>_. 1 - flag_val)) out))" for sk nl
    using assms(5) by (auto simp: group_any_all_def)
  have cell: "fold (any_all_row values labels msk False True flag_val K) [0..<length labels]
               (map (map (\<lambda>_. 1 - flag_val)) out) ! g ! j
      = (if \<exists>i \<in> set (filter (\<lambda>i. labels ! i = int g) [0..<length labels]).
               msk ! i ! j = 0 \<and> values ! i ! j = flag_val
         then flag_val
         else if \<exists>i \<in> set (filter (\<lambda>i. labels ! i = int g) [0..<length labels]). msk ! i ! j \<noteq> 0
         then - 1 else 1 - flag_val)"
    using fl by (subst group_any_all_cells [OF assms(1-4)], subst any_all_fold_kleene) auto
  show "\<exists>out'. group_any_all out K values labels msk val_test False True = Inr out'
            \<and> (out' ! g ! j = - 1 \<longleftrightarrow>
                 (\<exists>i < length labels. labels ! i = int g \<and> msk ! i ! j \<noteq> 0)
                 \<and> \<not> (\<exists>i < length labels. labels ! i = int g \<and> msk ! i ! j = 0
                           \<and> values ! i ! j = flag_val))"
    unfolding run using fl by (auto simp: cell)
  have cell': "fold (any_all_row values labels msk True nullable flag_val K) [0..<length labels]
               (map (map (\<lambda>_. 1 - flag_val)) out) ! g ! j
      = (if \<exists>i \<in> set (filter (\<lambda>i. labels ! i = int g) [0..<length labels]).
               msk ! i ! j = 0 \<and> values ! i ! j = flag_val
         then flag_val else 1 - flag_val)"
    by (subst group_any_all_cells [OF assms(1-4)], subst any_all_fold_skipna) simp
  show "\<exists>out'. group_any_all out K values labels msk val_test True nullable = Inr out'
            \<and> out' ! g ! j
                = (if \<exists>i < length labels. labels ! i = int g \<and> msk ! i ! j = 0
                         \<and> values ! i ! j = flag_val
                   then flag_val else 1 - flag_val)
            \<and> out' ! g ! j \<noteq> - 1"
    unfolding run using fl by (auto simp: cell')
  show "group_any_all [[5]] 1 [[0], [0], [0]] [0, 0, 0] [[1], [0], [0]] ''any'' False True
           = Inr [[- 1]]"
    by (simp add: group_any_all_def any_all_row_def any_all_cell_def set2_def upt_rec)
qed

theorem any_all_kleene_witness:
  "(\<exists>out'. group_any_all [[5], [5]] 1 [[0], [1], [0]] [0, 1, 1] [[1], [0], [1]] ''any'' False True
            = Inr out' \<and> out' ! 0 ! 0 = - 1 \<and> out' ! 1 ! 0 \<noteq> - 1)
   \<and> (\<exists>out'. group_any_all [[5], [5]] 1 [[0], [1], [0]] [0, 1, 1] [[1], [0], [1]] ''any'' True True
            = Inr out' \<and> out' ! 0 ! 0 = 0 \<and> out' ! 1 ! 0 = 1)"
proof -
  have ok: "labels_ok [0, 1, 1] 2" by (simp add: labels_ok_def)
  have sh: "shape2 [[5], [5 :: int]] 2 1" by (simp add: shape2_def)
  have vt: "(''any'' = ''any'' \<and> (1::int) = 1) \<or> (''any'' = ''all'' \<and> (1::int) = 0)" by simp
  have ex: "(\<exists>i<Suc (Suc (Suc 0)). P i) \<longleftrightarrow> P 0 \<or> P (Suc 0) \<or> P (Suc (Suc 0))" for P
    by (auto simp: less_Suc_eq)
  note t0 = any_all_kleene [OF ok sh _ _ vt, of 0 0 "[[0], [1], [0]]" "[[1], [0], [1]]" True]
  note t1 = any_all_kleene [OF ok sh _ _ vt, of 1 0 "[[0], [1], [0]]" "[[1], [0], [1]]" True]
  obtain a where a: "group_any_all [[5], [5]] 1 [[0], [1], [0]] [0, 1, 1] [[1], [0], [1]] ''any'' False True = Inr a"
    "a ! 0 ! 0 = - 1"
    using t0 by (auto simp: ex)
  obtain b where b: "group_any_all [[5], [5]] 1 [[0], [1], [0]] [0, 1, 1] [[1], [0], [1]] ''any'' False True = Inr b"
    "b ! 1 ! 0 \<noteq> - 1"
    using t1 by (auto simp: ex)
  obtain c where c: "group_any_all [[5], [5]] 1 [[0], [1], [0]] [0, 1, 1] [[1], [0], [1]] ''any'' True True = Inr c"
    "c ! 0 ! 0 = 0"
    using t0 by (auto simp: ex)
  obtain d where d: "group_any_all [[5], [5]] 1 [[0], [1], [0]] [0, 1, 1] [[1], [0], [1]] ''any'' True True = Inr d"
    "d ! 1 ! 0 = 1"
    using t1 by (auto simp: ex)
  from a b c d show ?thesis by auto
qed

section \<open>Rows of the NA group under group_shift_indexer\<close>

text \<open>
  C9.  The claim as stated covers \<open>periods = 0\<close>; there the kernel writes \<open>out[i] = i\<close>
  for every row, whatever its label: with \<open>labels = [-1]\<close> the result is \<open>[0]\<close>.
\<close>

theorem shift_null_label_periods0_counterexample:
  "group_shift_indexer [5] [- 1] 1 0 = Inr [0]"
  by (simp add: group_shift_indexer_def is_int32_def)

text \<open>
  C9, amended.  Let the labels be valid, \<open>out\<close> as long as \<open>labels\<close>, with fewer than
  \<open>2^31\<close> rows, and \<open>ngroups\<close> a non-negative C \<^verbatim>\<open>int\<close>.  A call whose \<open>periods\<close> is a C
  \<^verbatim>\<open>int\<close> other than 0 and other than the least one returns, and every row \<open>i\<close> with
  \<open>labels[i] = -1\<close> has \<open>out[i] = -1\<close>.  With \<open>periods = 0\<close> the call returns and every row
  has \<open>out[i] = i\<close>.  With the least \<^verbatim>\<open>int\<close> the negation wraps around and the call raises
  \<^verbatim>\<open>ValueError\<close>; outside the range of \<^verbatim>\<open>int\<close> it raises \<^verbatim>\<open>OverflowError\<close>.
\<close>

theorem shift_null_label:
  assumes "is_int32 ngroups" "0 \<le> ngroups" "labels_ok labels (nat ngroups)"
    and "length out = length labels" "length labels < 2147483648" "i < length labels"
  shows "(is_int32 periods \<and> periods \<noteq> 0 \<and> periods \<noteq> - 2147483648 \<longrightarrow> labels ! i = - 1 \<longrightarrow>
            (\<exists>out'. group_shift_indexer out labels ngroups periods = Inr out' \<and> out' ! i = - 1))
       \<and> (periods = 0 \<longrightarrow>
            (\<exists>out'. group_shift_indexer out labels ngroups periods = Inr out' \<and> out' ! i = int i))
       \<and> (periods = - 2147483648 \<longrightarrow>
            group_shift_indexer out labels ngroups periods
              = Inl (ValueError ''negative dimensions are not allowed''))
       \<and> (\<not> is_int32 periods \<longrightarrow>
            group_shift_indexer out labels ngroups periods
              = Inl (OverflowError ''value too large to convert to int''))"
proof (intro conjI impI)
  assume "is_int32 periods \<and> periods \<noteq> 0 \<and> periods \<noteq> - 2147483648" "labels ! i = - 1"
  then show "\<exists>out'. group_shift_indexer out labels ngroups periods = Inr out' \<and> out' ! i = - 1"
    using assms by (simp add: group_shift_indexer_visit shift_fold_null)
next
  assume p0: "periods = 0"
  have "length (fold (\<lambda>i out. out[i := int i]) [0..<n] xs) = length xs" for n xs
    by (induction n arbitrary: xs) simp_all
  moreover have "k < n \<Longrightarrow> k < length xs \<Longrightarrow>
      fold (\<lambda>i out. out[i := int i]) [0..<n] xs ! k = int k" for n k xs
  proof (induction n arbitrary: xs)
    case 0
    then show ?case by simp
  next
    case (Suc n)
    then show ?case
      using calculation [of n xs] by (cases "k = n") simp_all
  qed
  ultimately show "\<exists>out'. group_shift_indexer out labels ngroups periods = Inr out' \<and> out' ! i = int i"
    using assms p0 by (simp add: group_shift_indexer_def is_int32_def)
next
  assume "periods = - 2147483648"
  then show "group_shift_indexer out labels ngroups periods
              = Inl (ValueError ''negative dimensions are not allowed'')"
    using assms(1,2) by (simp add: group_shift_indexer_def is_int32_def wrap_int32_def)
next
  assume "\<not> is_int32 periods"
  then show "group_shift_indexer out labels ngroups periods
              = Inl (OverflowError ''value too large to convert to int'')"
    by (simp add: group_shift_indexer_def)
qed

theorem shift_null_label_witness:
  "(\<exists>out'. group_shift_indexer [7, 7, 7] [0, - 1, 0] 1 1 = Inr out' \<and> out' ! 1 = - 1)
   \<and> (\<exists>out'. group_shift_indexer [7, 7, 7] [0, - 1, 0] 1 0 = Inr out' \<and> out' ! 1 = 1)
   \<and> group_shift_indexer [7, 7, 7] [0, - 1, 0] 1 (- 2147483648)
       = Inl (ValueError ''negative dimensions are not allowed'')
   \<and> group_shift_indexer [7, 7, 7] [0, - 1, 0] 1 2147483648
       = Inl (OverflowError ''value too large to convert to int'')"
proof -
  have ok: "labels_ok [0, - 1, 0] (nat 1)" by (simp add: labels_ok_def)
  have g: "is_int32 1" "(0::int) \<le> 1" by (simp_all add: is_int32_def)
  have a: "\<exists>out'. group_shift_indexer [7, 7, 7] [0, - 1, 0] 1 1 = Inr out' \<and> out' ! 1 = - 1"
    using shift_null_label [OF g ok, of "[7, 7, 7]" 1 1] by (simp add: is_int32_def)
  have b: "\<exists>out'. group_shift_indexer [7, 7, 7] [0, - 1, 0] 1 0 = Inr out' \<and> out' ! 1 = 1"
    using shift_null_label [OF g ok, of "[7, 7, 7]" 1 0] by simp
  have c: "group_shift_indexer [7, 7, 7] [0, - 1, 0] 1 (- 2147483648)
       = Inl (ValueError ''negative dimensions are not allowed'')"
    using shift_null_label [OF g ok, of "[7, 7, 7]" 1 "- 2147483648"] by simp
  have d: "group_shift_indexer [7, 7, 7] [0, - 1, 0] 1 2147483648
       = Inl (OverflowError ''value too large to convert to int'')"
    using shift_null_label [OF g ok, of "[7, 7, 7]" 1 2147483648] by (simp add: is_int32_def)
  show ?thesis using a b c d by blast
qed

section \<open>The rolling window of group_shift_indexer\<close>



section \<open>The variance computed by group_var\<close>

text \<open>
  C1.  The claim as stated compares the integers \<open>nobs \<le> d\<close> and divides by the integer
  \<open>nobs - d\<close>.  The kernel converts \<open>nobs\<close> and \<open>ddof\<close> to the floating type first, and
  the conversion rounds.  At \<^verbatim>\<open>float32_t\<close>, with the values 0 and 1 in one group and
  \<open>ddof = -16777217\<close>, the kernel divides \<open>M2 = 0.5\<close> by \<open>2 + 16777216\<close>, where
  \<open>nobs - d\<close> is 16777219.
\<close>

theorem group_var_ddof_rounding_counterexample:
  "group_var binary32 [[NaN]] [0] 1 [[Finite False 0], [Finite False 1]] [0, 0] (- 1) (- 16777217)
     = Inr ([[Finite False (8388607 / 281474976710656)]], [2])
   \<and> fold (welford binary32) (group_values [[Finite False 0], [Finite False 1]] [0, 0] 0 0)
         (0, Finite False 0, Finite False 0)
     = (2, Finite False (1 / 2), Finite False (1 / 2))
   \<and> fdiv binary32 (Finite False (1 / 2)) (of_int_f binary32 (2 - (- 16777217)))
     = Finite False (4194303 / 140737488355328)"
  by code_simp

text \<open>
  C1, amended.  For a valid input (a format of the two, labels in range, \<open>counts\<close> and
  \<open>out\<close> with one row per group, as many rows of values as labels, fewer than \<open>2^63\<close>
  rows, \<open>min_count = -1\<close>, \<open>ddof\<close> a 64-bit integer) the call succeeds.  Let \<open>n\<close> be the
  number of non-NA values of the group in the column, and let the mean and \<open>M2\<close> follow the
  Welford recurrence over these values in row order.  The cell \<open>out[g, j]\<close> is NaN when
  \<open>n\<close> converted to the floating type is at most \<open>ddof\<close> converted to it, and otherwise
  \<open>M2\<close> divided by the difference of the two converted values.  When the number of rows
  and \<open>|ddof|\<close> are at most \<open>2^24\<close> for \<^verbatim>\<open>float32_t\<close> and \<open>2^53\<close> for \<^verbatim>\<open>float64_t\<close>, that
  is NaN when \<open>n \<le> ddof\<close> and \<open>M2 / (n - ddof)\<close> otherwise.  With
  \<open>values = [[5.0], [7.0], [9.0]]\<close>, \<open>labels = [0, 0, 1]\<close> and \<open>ddof = 1\<close> the result is
  \<open>[[2.0], [NaN]]\<close>.
\<close>

theorem group_var_welford:
  assumes "F = binary32 \<or> F = binary64"
    and "labels_ok labels G" "length counts = G" "shape2 out G K"
    and "length values = length labels" "g < G" "j < K"
    and "is_int64 ddof" "int (length labels) < 9223372036854775808"
  shows "(\<exists>out' counts'. group_var F out counts K values labels (- 1) ddof = Inr (out', counts')
       \<and> (case fold (welford F) (group_values values labels g j) (0, Finite False 0, Finite False 0) of
            (n, mean, M2) \<Rightarrow>
              n = int (length (group_values values labels g j))
              \<and> out' ! g ! j = (if fle (of_int_f F n) (of_int_f F ddof) then NaN
                                else fdiv F M2 (fsub F (of_int_f F n) (of_int_f F ddof)))
              \<and> (\<bar>ddof\<bar> \<le> 2 ^ prec F \<and> int (length labels) \<le> 2 ^ prec F \<longrightarrow>
                   out' ! g ! j = (if n \<le> ddof then NaN else fdiv F M2 (of_int_f F (n - ddof))))))
     \<and> group_var binary64 [[NaN], [NaN]] [0, 0] 1
           [[Finite False 5], [Finite False 7], [Finite False 9]] [0, 0, 1] (- 1) 1
         = Inr ([[Finite False 2], [NaN]], [2, 1])"
proof
  obtain out' counts' where run: "group_var F out counts K values labels (- 1) ddof = Inr (out', counts')"
    and c: "case fold (welford F) (group_values values labels g j) (0, Finite False 0, Finite False 0) of
            (n, mean, M2) \<Rightarrow>
              n = int (length (group_values values labels g j))
              \<and> out' ! g ! j = (if fle (of_int_f F n) (of_int_f F ddof) then NaN
                                else fdiv F M2 (fsub F (of_int_f F n) (of_int_f F ddof)))"
    using group_var_cell_value [where F = F, OF assms(2-9)] by (elim exE conjE) (rule that)
  obtain n mean M2 where w: "fold (welford F) (group_values values labels g j)
      (0, Finite False 0, Finite False 0) = (n, mean, M2)"
    by (cases "fold (welford F) (group_values values labels g j) (0, Finite False 0, Finite False 0)")
  have n: "n = int (length (group_values values labels g j))"
    and o: "out' ! g ! j = (if fle (of_int_f F n) (of_int_f F ddof) then NaN
                                else fdiv F M2 (fsub F (of_int_f F n) (of_int_f F ddof)))"
    using c w by simp_all
  have nle: "n \<le> int (length labels)" "0 \<le> n"
    using n length_group_values [of "values" labels g j] by simp_all
  have "out' ! g ! j = (if n \<le> ddof then NaN else fdiv F M2 (of_int_f F (n - ddof)))"
    if r: "\<bar>ddof\<bar> \<le> 2 ^ prec F \<and> int (length labels) \<le> 2 ^ prec F"
  proof -
    have "n \<le> 2 ^ prec F" using r nle(1) by linarith
    moreover have "\<bar>ddof\<bar> \<le> 2 ^ prec F" using r by (rule conjunct1)
    ultimately show ?thesis
      unfolding o using nle(2) by (intro var_exact_form assms(1))
  qed
  then show "\<exists>out' counts'. group_var F out counts K values labels (- 1) ddof = Inr (out', counts')
       \<and> (case fold (welford F) (group_values values labels g j) (0, Finite False 0, Finite False 0) of
            (n, mean, M2) \<Rightarrow>
              n = int (length (group_values values labels g j))
              \<and> out' ! g ! j = (if fle (of_int_f F n) (of_int_f F ddof) then NaN
                                else fdiv F M2 (fsub F (of_int_f F n) (of_int_f F ddof)))
              \<and> (\<bar>ddof\<bar> \<le> 2 ^ prec F \<and> int (length labels) \<le> 2 ^ prec F \<longrightarrow>
                   out' ! g ! j = (if n \<le> ddof then NaN else fdiv F M2 (of_int_f F (n - ddof)))))"
    using run w n o by simp
next
  show "group_var binary64 [[NaN], [NaN]] [0, 0] 1
           [[Finite False 5], [Finite False 7], [Finite False 9]] [0, 0, 1] (- 1) 1
         = Inr ([[Finite False 2], [NaN]], [2, 1])"
    by code_simp
qed

theorem group_var_welford_witness:
  "\<exists>out' counts'. group_var binary64 [[NaN, NaN]] [0] 2
        [[Finite False 1, NaN], [Finite False 4, Finite False 3], [NaN, Finite False 8]]
        [0, 0, - 1] (- 1) 1 = Inr (out', counts')
     \<and> out' ! 0 ! 0 = Finite False (9 / 2) \<and> out' ! 0 ! 1 = NaN"
proof -
  let ?vs = "[[Finite False 1, NaN], [Finite False 4, Finite False 3], [NaN, Finite False 8]]"
  have ok: "labels_ok [0, 0, - 1] 1" by (simp add: labels_ok_def)
  have sh: "shape2 [[NaN, NaN]] 1 2" by (simp add: shape2_def)
  have dd: "is_int64 1" by (simp add: is_int64_def)
  have v0: "group_values ?vs [0, 0, - 1] 0 0 = [Finite False 1, Finite False 4]"
    and v1: "group_values ?vs [0, 0, - 1] 0 1 = [Finite False 3]"
    by (simp_all add: group_values_def upt_rec)
  have w0: "fold (welford binary64) [Finite False 1, Finite False 4] (0, Finite False 0, Finite False 0)
      = (2, Finite False (5 / 2), Finite False (9 / 2))"
    and w1: "fold (welford binary64) [Finite False 3] (0, Finite False 0, Finite False 0)
      = (1, Finite False 3, Finite False 0)"
    by code_simp+
  have ar: "fdiv binary64 (Finite False (9 / 2)) (of_int_f binary64 (2 - 1)) = Finite False (9 / 2)"
    by code_simp
  have rg: "\<bar>1 :: int\<bar> \<le> 2 ^ prec binary64" "int (length [0, 0, - 1 :: int]) \<le> 2 ^ prec binary64"
    by (simp_all add: binary64_def)
  obtain a ca where a: "group_var binary64 [[NaN, NaN]] [0] 2 ?vs [0, 0, - 1] (- 1) 1 = Inr (a, ca)"
      "a ! 0 ! 0 = Finite False (9 / 2)"
    using group_var_welford [OF _ ok _ sh _ _ _ dd, of binary64 "[0]" ?vs 0 0] rg ar
    unfolding v0 w0 by auto
  obtain b cb where b: "group_var binary64 [[NaN, NaN]] [0] 2 ?vs [0, 0, - 1] (- 1) 1 = Inr (b, cb)"
      "b ! 0 ! 1 = NaN"
    using group_var_welford [OF _ ok _ sh _ _ _ dd, of binary64 "[0]" ?vs 0 1] rg
    unfolding v1 w1 by auto
  from a b show ?thesis by auto
qed

end
